theory Spec2Isabelle
  imports Complex_Main "HOL-Library.Log_Nat" "HOL-Library.Word"
begin

section \<open>Python values\<close>

text \<open>
  The image code works on a \<^verbatim>\<open>bytearray\<close>: a list of integers that the type keeps in
  \<open>0..255\<close>. A byte is an \<open>8 word\<close>; reading one gives \<open>uint\<close> of it, and storing an
  integer outside \<open>0..255\<close> raises \<^verbatim>\<open>ValueError\<close>. Python integers are \<open>int\<close>.
  Every exception the modelled code can raise is a value of \<open>error\<close>.
\<close>

type_synonym byte = "8 word"

datatype error =
  ValueError | IndexError | ZeroDivisionError | OverflowError | PPMFormatError | UnicodeDecodeError

definition to_byte :: "int \<Rightarrow> error + byte" where
  "to_byte v = (if 0 \<le> v \<and> v < 256 then Inr (word_of_int v) else Inl ValueError)"

text \<open>
  \<open>and_then\<close> sequences two steps that may raise: the second runs on the value of the
  first, and the first exception raised is the result.
\<close>

definition and_then :: "error + 'a \<Rightarrow> ('a \<Rightarrow> error + 'b) \<Rightarrow> error + 'b" where
  "and_then m f = (case m of Inl e \<Rightarrow> Inl e | Inr v \<Rightarrow> f v)"

text \<open>
  Indexing a Python sequence of length \<open>len\<close> with \<open>i\<close>: positions \<open>0..len-1\<close> are
  themselves, \<open>-len..-1\<close> count from the end, anything else raises \<^verbatim>\<open>IndexError\<close>
  (\<open>None\<close> here). \<open>list_incr\<close> is \<^verbatim>\<open>xs[i] += 1\<close> on a list of integers.
\<close>

definition py_index :: "nat \<Rightarrow> int \<Rightarrow> nat option" where
  "py_index len i =
     (if 0 \<le> i \<and> i < int len then Some (nat i)
      else if - int len \<le> i \<and> i < 0 then Some (nat (int len + i))
      else None)"

definition list_incr :: "int list \<Rightarrow> int \<Rightarrow> error + int list" where
  "list_incr xs i =
     (case py_index (length xs) i of
        None \<Rightarrow> Inl IndexError
      | Some k \<Rightarrow> Inr (xs[k := xs ! k + 1]))"

subsection \<open>Floating point\<close>

text \<open>
  A Python \<^verbatim>\<open>float\<close> is an IEEE binary64 number. The image code truncates floats to
  integers, where one unit in the last place decides the result, and the geometry code
  adds and subtracts coordinates of very different sizes, so every float operation is
  modelled with its rounding: a float is the real number it denotes, and \<open>fl\<close> rounds a
  real to the nearest binary64 number, ties to the even significand. Numbers of magnitude
  at least \<open>2^-1022\<close> have a 53-bit significand; below that the spacing stays
  \<open>2^-1074\<close> (subnormal numbers, gradual underflow). Overflow to infinity is outside
  the model: \<open>fl\<close> is the result of a float operation as long as that result is finite.

  \<open>float_exponent x\<close> is the integer \<open>e\<close> with \<open>2^e \<le> x < 2^(e+1)\<close>, for \<open>x > 0\<close>, and
  \<open>float_unit x\<close> the spacing of the floats around \<open>x\<close>.
  \<open>py_round\<close> is Python's \<^verbatim>\<open>round\<close> with one argument (ties to even), \<open>trunc\<close> is
  \<^verbatim>\<open>int(x)\<close> on a float (towards zero).
\<close>

definition py_round :: "real \<Rightarrow> int" where
  "py_round x = (let f = \<lfloor>x\<rfloor>; d = x - of_int f in
     if d < 1/2 then f else if 1/2 < d then f + 1 else if even f then f else f + 1)"

definition trunc :: "real \<Rightarrow> int" where
  "trunc x = (if 0 \<le> x then \<lfloor>x\<rfloor> else \<lceil>x\<rceil>)"

definition pow2 :: "int \<Rightarrow> real" where
  "pow2 e = (if 0 \<le> e then 2 ^ nat e else 1 / 2 ^ nat (- e))"

definition float_exponent :: "real \<Rightarrow> int" where
  "float_exponent x = (if 1 \<le> x then bitlen \<lfloor>x\<rfloor> - 1 else - bitlen (\<lceil>1 / x\<rceil> - 1))"

definition float_unit :: "real \<Rightarrow> real" where
  "float_unit x = pow2 (max (float_exponent \<bar>x\<bar>) (- 1022) - 52)"

definition fl :: "real \<Rightarrow> real" where
  "fl x = (if x = 0 then 0 else let u = float_unit x in of_int (py_round (x / u)) * u)"

text \<open>
  \<^verbatim>\<open>float(k)\<close> for a Python integer, as every \<^verbatim>\<open>int * float\<close> does first: the nearest
  float, and \<^verbatim>\<open>OverflowError\<close> when that is beyond the largest one, that is from
  \<open>2^1024 - 2^970\<close> on. \<^verbatim>\<open>x ** k\<close> for a float and an integer \<open>k \<ge> 0\<close>, and
  \<^verbatim>\<open>math.cos\<close>, \<^verbatim>\<open>math.sin\<close> are taken as correctly rounded. \<^verbatim>\<open>math.radians\<close>
  multiplies by the float constant \<^verbatim>\<open>pi / 180.0\<close>, where \<^verbatim>\<open>pi\<close> is the float
  \<open>884279719003555 / 2^48\<close>.
\<close>

definition int_to_float :: "int \<Rightarrow> error + real" where
  "int_to_float k = (if \<bar>k\<bar> < 2 ^ 1024 - 2 ^ 970 then Inr (fl (of_int k)) else Inl OverflowError)"

definition float_pow :: "real \<Rightarrow> nat \<Rightarrow> real" where
  "float_pow x k = fl (x ^ k)"

definition py_pi :: real where
  "py_pi = 884279719003555 / 281474976710656"

definition radians :: "real \<Rightarrow> real" where
  "radians x = fl (x * fl (py_pi / 180))"

definition py_cos :: "real \<Rightarrow> real" where
  "py_cos a = fl (cos a)"

definition py_sin :: "real \<Rightarrow> real" where
  "py_sin a = fl (sin a)"

text \<open>
  The luminance of a pixel, as every module computes it:
  \<^verbatim>\<open>int(0.2126 * r + 0.7152 * g + 0.0722 * b)\<close>. The three literals are the floats
  nearest to the decimals; the products and the two sums are rounded one by one.
\<close>

definition luminance :: "byte \<Rightarrow> byte \<Rightarrow> byte \<Rightarrow> int" where
  "luminance r g b =
     trunc (fl (fl (fl (fl (2126 / 10000) * of_int (uint r)) + fl (fl (7152 / 10000) * of_int (uint g)))
                + fl (fl (722 / 10000) * of_int (uint b))))"

section \<open>image_buffer.py\<close>

record ImageBuffer =
  width :: int
  height :: int
  max_value :: int
  data :: "byte list"

text \<open>\<^verbatim>\<open>ImageBuffer.clamp\<close>: \<^verbatim>\<open>max(0, min(self.max_value, int(round(value))))\<close>.\<close>

definition clamp :: "ImageBuffer \<Rightarrow> real \<Rightarrow> int" where
  "clamp img v = max 0 (min (max_value img) (py_round v))"

section \<open>histogram.py\<close>

text \<open>
  \<^verbatim>\<open>compute_histogram_grayscale\<close>: 256 counters, one step per pixel
  (\<^verbatim>\<open>for i in range(0, len(data), 3)\<close>), \<^verbatim>\<open>hist[gray] += 1\<close>.
\<close>

fun histogram_grayscale_loop :: "int list \<Rightarrow> byte list \<Rightarrow> error + int list" where
  "histogram_grayscale_loop hist [] = Inr hist"
| "histogram_grayscale_loop hist (r # g # b # rest) =
     and_then (list_incr hist (luminance r g b)) (\<lambda>hist'. histogram_grayscale_loop hist' rest)"
| "histogram_grayscale_loop hist _ = Inl IndexError"

definition compute_histogram_grayscale :: "ImageBuffer \<Rightarrow> error + int list" where
  "compute_histogram_grayscale img = histogram_grayscale_loop (replicate 256 0) (data img)"

section \<open>binarization.py\<close>

text \<open>
  \<^verbatim>\<open>threshold_manual\<close> rejects a threshold outside \<open>0..255\<close>, then walks the data three
  bytes at a time (\<^verbatim>\<open>for i in range(0, len(image.data), 3)\<close>); reading
  \<^verbatim>\<open>data[i + 1]\<close> or \<^verbatim>\<open>data[i + 2]\<close> past the end raises \<^verbatim>\<open>IndexError\<close>.
\<close>

fun threshold_pixels :: "int \<Rightarrow> byte list \<Rightarrow> error + byte list" where
  "threshold_pixels t [] = Inr []"
| "threshold_pixels t (r # g # b # rest) =
     (let gray = luminance r g b;
          v = (if gray \<ge> t then 255 else 0)
      in case threshold_pixels t rest of
           Inl e \<Rightarrow> Inl e
         | Inr out \<Rightarrow> Inr (v # v # v # out))"
| "threshold_pixels t _ = Inl IndexError"

definition threshold_manual :: "ImageBuffer \<Rightarrow> int \<Rightarrow> error + ImageBuffer" where
  "threshold_manual img threshold =
     (if \<not> (0 \<le> threshold \<and> threshold \<le> 255) then Inl ValueError
      else case threshold_pixels threshold (data img) of
             Inl e \<Rightarrow> Inl e
           | Inr new_data \<Rightarrow> Inr (img\<lparr>data := new_data\<rparr>))"

text \<open>
  \<^verbatim>\<open>threshold_percent_black\<close>. The scan over \<^verbatim>\<open>range(256)\<close> adds \<^verbatim>\<open>hist[i]\<close>
  to the running count and stops at the first \<open>i\<close> where the count reaches
  \<^verbatim>\<open>target_black = int(total_pixels * percent / 100.0)\<close>; the threshold stays 0 when
  it never does. \<open>percent_black_threshold\<close> is the function up to its last line, which
  hands the threshold to \<^verbatim>\<open>threshold_manual\<close>.
\<close>

fun percent_black_scan :: "int list \<Rightarrow> int \<Rightarrow> int \<Rightarrow> nat list \<Rightarrow> int" where
  "percent_black_scan hist target_black cumulative [] = 0"
| "percent_black_scan hist target_black cumulative (i # rest) =
     (let cumulative' = cumulative + hist ! i
      in if cumulative' \<ge> target_black then int i
         else percent_black_scan hist target_black cumulative' rest)"

definition percent_black_threshold :: "ImageBuffer \<Rightarrow> real \<Rightarrow> error + int" where
  "percent_black_threshold img percent =
     (if \<not> (0 \<le> percent \<and> percent \<le> 100) then Inl ValueError
      else and_then (compute_histogram_grayscale img) (\<lambda>hist.
        let total_pixels = width img * height img;
            target_black = trunc (fl (fl (of_int total_pixels * percent) / 100))
        in Inr (percent_black_scan hist target_black 0 [0..<256])))"

definition threshold_percent_black :: "ImageBuffer \<Rightarrow> real \<Rightarrow> error + ImageBuffer" where
  "threshold_percent_black img percent =
     and_then (percent_black_threshold img percent) (threshold_manual img)"

section \<open>geometry2d.py\<close>

text \<open>
  A matrix is three rows of three floats. Every entry of a product is
  \<^verbatim>\<open>a[i][0] * b[0][j] + a[i][1] * b[1][j] + a[i][2] * b[2][j]\<close>: three products and two
  sums, each rounded, from left to right; \<open>dot3\<close> is that expression.
  \<^verbatim>\<open>mat3_apply_to_point\<close> computes the three homogeneous coordinates the same way and
  divides by the third unless its magnitude is below the float \<^verbatim>\<open>1e-12\<close>.
\<close>

type_synonym Vec2 = "real \<times> real"
type_synonym Row3 = "real \<times> real \<times> real"
type_synonym Mat3 = "Row3 \<times> Row3 \<times> Row3"

definition dot3 :: "real \<Rightarrow> real \<Rightarrow> real \<Rightarrow> real \<Rightarrow> real \<Rightarrow> real \<Rightarrow> real" where
  "dot3 a b c x y z = fl (fl (fl (a * x) + fl (b * y)) + fl (c * z))"

definition mat3_identity :: Mat3 where
  "mat3_identity = ((1, 0, 0), (0, 1, 0), (0, 0, 1))"

fun mat3_mul :: "Mat3 \<Rightarrow> Mat3 \<Rightarrow> Mat3" where
  "mat3_mul ((a00, a01, a02), (a10, a11, a12), (a20, a21, a22))
            ((b00, b01, b02), (b10, b11, b12), (b20, b21, b22)) =
     ((dot3 a00 a01 a02 b00 b10 b20, dot3 a00 a01 a02 b01 b11 b21, dot3 a00 a01 a02 b02 b12 b22),
      (dot3 a10 a11 a12 b00 b10 b20, dot3 a10 a11 a12 b01 b11 b21, dot3 a10 a11 a12 b02 b12 b22),
      (dot3 a20 a21 a22 b00 b10 b20, dot3 a20 a21 a22 b01 b11 b21, dot3 a20 a21 a22 b02 b12 b22))"

fun mat3_apply_to_point :: "Mat3 \<Rightarrow> Vec2 \<Rightarrow> Vec2" where
  "mat3_apply_to_point ((m00, m01, m02), (m10, m11, m12), (m20, m21, m22)) (x, y) =
     (let hx = dot3 m00 m01 m02 x y 1;
          hy = dot3 m10 m11 m12 x y 1;
          hw = dot3 m20 m21 m22 x y 1
      in if \<bar>hw\<bar> < fl (1 / 10 ^ 12) then (hx, hy) else (fl (hx / hw), fl (hy / hw)))"

definition mat3_translate :: "real \<Rightarrow> real \<Rightarrow> Mat3" where
  "mat3_translate dx dy = ((1, 0, dx), (0, 1, dy), (0, 0, 1))"

definition mat3_rotate_degrees :: "real \<Rightarrow> Mat3" where
  "mat3_rotate_degrees angle_deg =
     (let a = radians angle_deg; c = py_cos a; s = py_sin a
      in ((c, - s, 0), (s, c, 0), (0, 0, 1)))"

definition mat3_scale :: "real \<Rightarrow> real \<Rightarrow> Mat3" where
  "mat3_scale sx sy = ((sx, 0, 0), (0, sy, 0), (0, 0, 1))"

fun around_point :: "Vec2 \<Rightarrow> Mat3 \<Rightarrow> Mat3" where
  "around_point (px, py) transform =
     mat3_mul (mat3_translate px py) (mat3_mul transform (mat3_translate (- px) (- py)))"

section \<open>bezier.py\<close>

text \<open>
  \<^verbatim>\<open>bernstein_polynomial\<close> is only called with \<open>0 \<le> i \<le> n\<close> (\<open>n\<close> is the number of
  control points minus one and \<open>i\<close> an index into them), so both are \<open>nat\<close> and the two
  exponents are not negative. The product \<^verbatim>\<open>binomial_coefficient(n, i) * (t ** i)\<close>
  turns the integer into a float first, which raises \<^verbatim>\<open>OverflowError\<close> for a
  coefficient beyond the float range. \<open>bezier_sum\<close> and \<open>rational_sum\<close> are the two
  \<^verbatim>\<open>for i, ... in enumerate(...)\<close> loops; \<open>generate_samples\<close> is the loop of
  \<^verbatim>\<open>generate_bezier_curve\<close> over \<^verbatim>\<open>range(num_samples + 1)\<close>, whose first statement
  \<^verbatim>\<open>t = i / num_samples\<close> raises \<^verbatim>\<open>ZeroDivisionError\<close> when \<open>num_samples\<close> is 0.
\<close>

definition binomial_coefficient :: "int \<Rightarrow> int \<Rightarrow> int" where
  "binomial_coefficient n k =
     (if k < 0 \<or> k > n then 0
      else if k = 0 \<or> k = n then 1
      else let k' = min k (n - k)
           in fold (\<lambda>i result. result * (n - int i) div (int i + 1)) [0..<nat k'] 1)"

definition bernstein_polynomial :: "nat \<Rightarrow> nat \<Rightarrow> real \<Rightarrow> error + real" where
  "bernstein_polynomial n i t =
     (if t < 0 \<or> t > 1 then Inr 0
      else and_then (int_to_float (binomial_coefficient (int n) (int i))) (\<lambda>c.
             Inr (fl (fl (c * float_pow t i) * float_pow (fl (1 - t)) (n - i)))))"

fun bezier_sum :: "nat \<Rightarrow> real \<Rightarrow> nat \<Rightarrow> (real \<times> real) list \<Rightarrow> real \<times> real \<Rightarrow> error + real \<times> real" where
  "bezier_sum n t i [] (x, y) = Inr (x, y)"
| "bezier_sum n t i ((px, py) # rest) (x, y) =
     and_then (bernstein_polynomial n i t) (\<lambda>b.
       bezier_sum n t (Suc i) rest (fl (x + fl (b * px)), fl (y + fl (b * py))))"

definition bezier_curve_point :: "(real \<times> real) list \<Rightarrow> real \<Rightarrow> error + real \<times> real" where
  "bezier_curve_point control_points t =
     (if control_points = [] then Inr (0, 0)
      else bezier_sum (length control_points - 1) t 0 control_points (0, 0))"

fun rational_sum ::
  "nat \<Rightarrow> real \<Rightarrow> nat \<Rightarrow> ((real \<times> real) \<times> real) list \<Rightarrow> real \<times> real \<times> real \<Rightarrow> error + real \<times> real \<times> real" where
  "rational_sum n t i [] acc = Inr acc"
| "rational_sum n t i (((px, py), w) # rest) (numerator_x, numerator_y, denominator) =
     and_then (bernstein_polynomial n i t) (\<lambda>b.
       let wb = fl (w * b)
       in rational_sum n t (Suc i) rest
            (fl (numerator_x + fl (wb * px)), fl (numerator_y + fl (wb * py)), fl (denominator + wb)))"

definition rational_bezier_curve_point ::
  "(real \<times> real) list \<Rightarrow> real list \<Rightarrow> real \<Rightarrow> error + real \<times> real" where
  "rational_bezier_curve_point control_points weights t =
     (if control_points = [] \<or> length control_points \<noteq> length weights then Inr (0, 0)
      else and_then (rational_sum (length control_points - 1) t 0 (zip control_points weights) (0, 0, 0))
             (\<lambda>(numerator_x, numerator_y, denominator).
               if \<bar>denominator\<bar> < fl (1 / 10 ^ 10) then Inr (0, 0)
               else Inr (fl (numerator_x / denominator), fl (numerator_y / denominator))))"

fun generate_samples ::
  "(real \<times> real) list \<Rightarrow> real list option \<Rightarrow> int \<Rightarrow> int list \<Rightarrow> error + (real \<times> real) list" where
  "generate_samples control_points weights num_samples [] = Inr []"
| "generate_samples control_points weights num_samples (i # rest) =
     (if num_samples = 0 then Inl ZeroDivisionError
      else let t = fl (of_int i / of_int num_samples)
           in and_then (case weights of
                          Some ws \<Rightarrow>
                            if length ws = length control_points
                            then rational_bezier_curve_point control_points ws t
                            else bezier_curve_point control_points t
                        | None \<Rightarrow> bezier_curve_point control_points t)
                (\<lambda>point. and_then (generate_samples control_points weights num_samples rest)
                   (\<lambda>curve_points. Inr (point # curve_points))))"

definition generate_bezier_curve ::
  "(real \<times> real) list \<Rightarrow> int \<Rightarrow> real list option \<Rightarrow> error + (real \<times> real) list" where
  "generate_bezier_curve control_points num_samples weights =
     (if length control_points < 2 then Inr control_points
      else generate_samples control_points weights num_samples [0..num_samples])"

section \<open>Facts about the float model\<close>

lemma pow2_pos: "0 < pow2 e"
  by (simp add: pow2_def)

lemma py_round_nonneg: "0 \<le> x \<Longrightarrow> 0 \<le> py_round x"
  by (simp add: py_round_def Let_def)

lemma fl_nonneg: "0 \<le> x \<Longrightarrow> 0 \<le> fl x"
  by (simp add: fl_def Let_def float_unit_def py_round_nonneg pow2_pos less_imp_le)

lemma trunc_nonneg: "0 \<le> x \<Longrightarrow> 0 \<le> trunc x"
  by (simp add: trunc_def)

text \<open>
  \<open>pow2 e\<close> is \<open>2\<close> to the power \<open>e\<close>; \<open>float_exponent\<close> finds the binade of a positive
  real, and is the only exponent that does. \<open>fl_eval\<close> evaluates \<open>fl\<close> once the binade is
  known, which is how \<open>fl\<close> is computed on the concrete inputs below.
\<close>

lemma pow2_powr: "pow2 e = 2 powr (of_int e)"
proof (cases "0 \<le> e")
  case True
  then show ?thesis by (simp add: pow2_def powr_realpow [symmetric])
next
  case False
  then have "pow2 e = 1 / 2 powr real (nat (- e))"
    by (simp add: pow2_def powr_realpow [symmetric])
  also have "\<dots> = 2 powr (of_int e)"
    using False by (simp add: powr_minus [symmetric] divide_inverse)
  finally show ?thesis .
qed

lemma pow2_add: "pow2 (a + b) = pow2 a * pow2 b"
  by (simp add: pow2_powr powr_add)

lemma pow2_mono: "a \<le> b \<Longrightarrow> pow2 a \<le> pow2 b"
  by (simp add: pow2_powr)

lemma pow2_strict_mono: "a < b \<Longrightarrow> pow2 a < pow2 b"
  by (simp add: pow2_powr)

lemma float_exponent_bounds:
  assumes "0 < x"
  shows "pow2 (float_exponent x) \<le> x \<and> x < pow2 (float_exponent x + 1)"
proof (cases "1 \<le> x")
  case True
  let ?n = "\<lfloor>x\<rfloor>"
  from True have n: "0 < ?n" by simp
  from bitlen_bounds [OF n] have b: "2 ^ nat (bitlen ?n - 1) \<le> ?n" "?n < 2 ^ nat (bitlen ?n)"
    by auto
  from n have bl: "1 \<le> bitlen ?n" by (auto simp: bitlen_alt_def)
  have "(2::real) ^ nat (bitlen ?n - 1) \<le> of_int ?n"
    using b(1) by (metis of_int_le_iff of_int_numeral of_int_power)
  also have "\<dots> \<le> x" by simp
  finally have lo: "(2::real) ^ nat (bitlen ?n - 1) \<le> x" .
  have "?n + 1 \<le> 2 ^ nat (bitlen ?n)" using b(2) by simp
  then have "of_int (?n + 1) \<le> (2::real) ^ nat (bitlen ?n)"
    by (metis of_int_le_iff of_int_numeral of_int_power)
  moreover have "x < of_int (?n + 1)" by linarith
  ultimately have hi: "x < (2::real) ^ nat (bitlen ?n)" by linarith
  from True bl lo hi show ?thesis
    by (simp add: float_exponent_def pow2_def)
next
  case False
  let ?m = "\<lceil>1 / x\<rceil> - 1"
  from False assms have y: "1 < 1 / x" by simp
  then have m: "0 < ?m" by linarith
  from bitlen_bounds [OF m] have b: "2 ^ nat (bitlen ?m - 1) \<le> ?m" "?m < 2 ^ nat (bitlen ?m)"
    by auto
  from m have bl: "1 \<le> bitlen ?m" by (auto simp: bitlen_alt_def)
  have "?m + 1 \<le> 2 ^ nat (bitlen ?m)" using b(2) by simp
  then have "of_int (?m + 1) \<le> (2::real) ^ nat (bitlen ?m)"
    by (metis of_int_le_iff of_int_numeral of_int_power)
  moreover have "1 / x \<le> of_int (?m + 1)" by simp
  ultimately have "1 / x \<le> (2::real) ^ nat (bitlen ?m)" by linarith
  then have lo: "1 / 2 ^ nat (bitlen ?m) \<le> x"
    using assms by (simp add: field_simps)
  have "(2::real) ^ nat (bitlen ?m - 1) \<le> of_int ?m"
    using b(1) by (metis of_int_le_iff of_int_numeral of_int_power)
  also have "of_int ?m < 1 / x" by linarith
  finally have "(2::real) ^ nat (bitlen ?m - 1) < 1 / x" .
  then have hi: "x < 1 / 2 ^ nat (bitlen ?m - 1)"
    using assms by (simp add: field_simps)
  have e: "float_exponent x = - bitlen ?m" using False by (simp add: float_exponent_def)
  have p1: "pow2 (- bitlen ?m) = 1 / 2 ^ nat (bitlen ?m)"
    using bl by (simp add: pow2_def)
  have p2: "pow2 (- bitlen ?m + 1) = 1 / 2 ^ nat (bitlen ?m - 1)"
  proof (cases "bitlen ?m = 1")
    case True
    then show ?thesis by (simp add: pow2_def)
  next
    case False
    with bl have "- bitlen ?m + 1 < 0" by simp
    then show ?thesis by (simp add: pow2_def)
  qed
  from lo hi show ?thesis unfolding e p1 p2 by simp
qed

lemma float_exponent_unique:
  assumes "0 < x" "pow2 e \<le> x" "x < pow2 (e + 1)"
  shows "float_exponent x = e"
proof -
  from float_exponent_bounds [OF assms(1)]
  have b: "pow2 (float_exponent x) \<le> x" "x < pow2 (float_exponent x + 1)" by auto
  have "float_exponent x < e + 1"
  proof (rule ccontr)
    assume "\<not> float_exponent x < e + 1"
    then have "pow2 (e + 1) \<le> pow2 (float_exponent x)" by (intro pow2_mono) simp
    with b(1) assms(3) show False by linarith
  qed
  moreover have "e < float_exponent x + 1"
  proof (rule ccontr)
    assume "\<not> e < float_exponent x + 1"
    then have "pow2 (float_exponent x + 1) \<le> pow2 e" by (intro pow2_mono) simp
    with b(2) assms(2) show False by linarith
  qed
  ultimately show ?thesis by simp
qed

lemma fl_eval:
  assumes "pow2 e \<le> \<bar>x\<bar>" "\<bar>x\<bar> < pow2 (e + 1)" "- 1022 \<le> e"
  shows "fl x = of_int (py_round (x / pow2 (e - 52))) * pow2 (e - 52)"
proof -
  from assms(1) pow2_pos [of e] have "0 < \<bar>x\<bar>" by linarith
  then have "x \<noteq> 0" by simp
  moreover have "float_exponent \<bar>x\<bar> = e"
    using \<open>0 < \<bar>x\<bar>\<close> assms(1,2) by (rule float_exponent_unique)
  ultimately show ?thesis using assms(3) by (simp add: fl_def float_unit_def Let_def max_def)
qed

lemma py_round_of_int: "py_round (of_int n) = n"
  by (simp add: py_round_def)

lemma py_round_error: "\<bar>of_int (py_round x) - x\<bar> \<le> 1 / 2"
proof -
  have "of_int \<lfloor>x\<rfloor> \<le> x" "x < of_int \<lfloor>x\<rfloor> + 1" by linarith+
  then show ?thesis by (auto simp: py_round_def Let_def)
qed

lemma py_round_mono:
  assumes "x \<le> y"
  shows "py_round x \<le> py_round y"
proof (rule ccontr)
  assume "\<not> py_round x \<le> py_round y"
  then have "py_round y + 1 \<le> py_round x" by simp
  then have gap: "(of_int (py_round y) :: real) + 1 \<le> of_int (py_round x)"
    by (metis of_int_le_iff of_int_add of_int_1)
  from py_round_error [of x] py_round_error [of y] gap assms
  have "x = y" by linarith
  with \<open>\<not> py_round x \<le> py_round y\<close> show False by simp
qed

lemma py_round_minus: "py_round (- x) = - py_round x"
proof (cases "x = of_int \<lfloor>x\<rfloor>")
  case True
  then obtain n where "x = of_int n" ..
  then have "- x = of_int (- n)" by simp
  with \<open>x = of_int n\<close> show ?thesis by (simp only: py_round_of_int)
next
  case False
  then have f: "\<lfloor>- x\<rfloor> = - \<lfloor>x\<rfloor> - 1"
    by (metis ceiling_altdef ceiling_def add_diff_cancel_right' minus_diff_eq minus_add_distrib uminus_add_conv_diff)
  show ?thesis
    unfolding py_round_def Let_def f by auto
qed

lemma fl_zero: "fl 0 = 0"
  by (simp add: fl_def)

lemma fl_minus: "fl (- x) = - fl x"
  by (simp add: fl_def float_unit_def Let_def py_round_minus)

lemma pow2_diff: "pow2 (a - b) = pow2 a / pow2 b"
  by (simp add: pow2_powr powr_diff)

lemma pow2_nat: "0 \<le> e \<Longrightarrow> pow2 e = 2 ^ nat e"
  by (simp add: pow2_def)

lemma pow2_52: "pow2 52 = 2 ^ 52"
  by (simp add: pow2_def)

lemma pow2_53: "pow2 53 = 2 ^ 53"
  by (simp add: pow2_def)

lemma exponent_bounds_abs:
  assumes "x \<noteq> 0"
  shows "pow2 (float_exponent \<bar>x\<bar>) \<le> \<bar>x\<bar>" "\<bar>x\<bar> < pow2 (float_exponent \<bar>x\<bar> + 1)"
  using float_exponent_bounds [of "\<bar>x\<bar>"] assms by auto

lemma float_exponent_mono:
  assumes "0 < x" "x \<le> y"
  shows "float_exponent x \<le> float_exponent y"
proof (rule ccontr)
  assume "\<not> float_exponent x \<le> float_exponent y"
  then have "pow2 (float_exponent y + 1) \<le> pow2 (float_exponent x)"
    by (intro pow2_mono) simp
  with float_exponent_bounds [of x] float_exponent_bounds [of y] assms show False
    by linarith
qed

lemma float_unit_pos: "0 < float_unit x"
  by (simp add: float_unit_def pow2_pos)

lemma fl_unit: "x \<noteq> 0 \<Longrightarrow> fl x = of_int (py_round (x / float_unit x)) * float_unit x"
  by (simp add: fl_def Let_def)

lemma fl_error_unit: "\<bar>fl x - x\<bar> \<le> float_unit x / 2"
proof (cases "x = 0")
  case True
  then show ?thesis using float_unit_pos [of 0] by (simp add: fl_zero)
next
  case False
  let ?u = "float_unit x"
  have u: "0 < ?u" by (rule float_unit_pos)
  have "fl x - x = (of_int (py_round (x / ?u)) - x / ?u) * ?u"
    using u False by (simp add: fl_unit field_simps)
  then have "\<bar>fl x - x\<bar> = \<bar>of_int (py_round (x / ?u)) - x / ?u\<bar> * ?u"
    using u by (simp add: abs_mult)
  also have "\<dots> \<le> 1 / 2 * ?u"
    using py_round_error [of "x / ?u"] u by (intro mult_right_mono) simp_all
  finally show ?thesis by simp
qed

lemma float_unit_normal:
  assumes "pow2 (- 1022) \<le> \<bar>x\<bar>"
  shows "float_unit x \<le> \<bar>x\<bar> / 2 ^ 52"
proof -
  from assms pow2_pos [of "- 1022"] have x0: "x \<noteq> 0" by auto
  let ?e = "float_exponent \<bar>x\<bar>"
  have "- 1022 < ?e + 1"
  proof (rule ccontr)
    assume "\<not> - 1022 < ?e + 1"
    then have "pow2 (?e + 1) \<le> pow2 (- 1022)" by (intro pow2_mono) simp
    with exponent_bounds_abs(2) [OF x0] assms show False by linarith
  qed
  then have "float_unit x = pow2 (?e - 52)" by (simp add: float_unit_def max_def)
  also have "\<dots> = pow2 ?e / 2 ^ 52" by (simp only: pow2_diff pow2_52)
  also have "\<dots> \<le> \<bar>x\<bar> / 2 ^ 52"
    using exponent_bounds_abs(1) [OF x0] by (simp add: divide_right_mono)
  finally show ?thesis .
qed

lemma float_unit_bound:
  assumes "x \<noteq> 0"
  shows "float_unit x \<le> \<bar>x\<bar> / 2 ^ 52 + pow2 (- 1074)"
proof (cases "pow2 (- 1022) \<le> \<bar>x\<bar>")
  case True
  from float_unit_normal [OF this] pow2_pos [of "- 1074"] show ?thesis by linarith
next
  case False
  have "float_exponent \<bar>x\<bar> \<le> - 1022"
  proof (rule ccontr)
    assume "\<not> float_exponent \<bar>x\<bar> \<le> - 1022"
    then have "pow2 (- 1022) \<le> pow2 (float_exponent \<bar>x\<bar>)" by (intro pow2_mono) simp
    with exponent_bounds_abs(1) [OF assms] False show False by linarith
  qed
  then have "float_unit x = pow2 (- 1074)"
    by (simp add: float_unit_def max_def)
  then show ?thesis by simp
qed

lemma fl_error: "\<bar>fl x - x\<bar> \<le> \<bar>x\<bar> / 2 ^ 53 + pow2 (- 1075)"
proof (cases "x = 0")
  case True
  then show ?thesis using pow2_pos [of "- 1075"] by (simp add: fl_zero)
next
  case False
  have "pow2 (- 1074) = 2 * pow2 (- 1075)" by (simp add: pow2_def)
  with fl_error_unit [of x] float_unit_bound [OF False] show ?thesis by simp
qed

lemma fl_error_normal: "pow2 (- 1022) \<le> \<bar>x\<bar> \<Longrightarrow> \<bar>fl x - x\<bar> \<le> \<bar>x\<bar> / 2 ^ 53"
  using fl_error_unit [of x] float_unit_normal [of x] by simp

lemma quotient_bound:
  assumes "x \<noteq> 0"
  shows "\<bar>x / float_unit x\<bar> < 2 ^ 53"
proof -
  define E where "E = max (float_exponent \<bar>x\<bar>) (- 1022)"
  have u: "float_unit x = pow2 (E - 52)" by (simp add: float_unit_def E_def)
  have "\<bar>x\<bar> < pow2 (float_exponent \<bar>x\<bar> + 1)" by (rule exponent_bounds_abs(2) [OF assms])
  also have "\<dots> \<le> pow2 (E + 1)" by (intro pow2_mono) (simp add: E_def)
  also have "\<dots> = 2 ^ 53 * pow2 (E - 52)"
  proof -
    have "E + 1 = 53 + (E - 52)" by simp
    then show ?thesis by (simp only: pow2_add pow2_53)
  qed
  finally show ?thesis using pow2_pos [of "E - 52"] by (simp add: u abs_divide pos_divide_less_eq)
qed

lemma mantissa_bound:
  assumes "x \<noteq> 0"
  shows "\<bar>py_round (x / float_unit x)\<bar> \<le> 2 ^ 53"
proof -
  let ?q = "x / float_unit x"
  from quotient_bound [OF assms] have "?q \<le> 2 ^ 53" "- (2 ^ 53) \<le> ?q"
    by linarith+
  then have "?q \<le> of_int (2 ^ 53)" "of_int (- (2 ^ 53)) \<le> ?q"
    by simp_all
  then have "py_round ?q \<le> py_round (of_int (2 ^ 53))" "py_round (of_int (- (2 ^ 53))) \<le> py_round ?q"
    by (simp_all only: py_round_mono)
  then have "py_round ?q \<le> 2 ^ 53" "- (2 ^ 53) \<le> py_round ?q"
    by (simp_all only: py_round_of_int)
  then show ?thesis by linarith
qed

lemma fl_repr:
  assumes m: "\<bar>m\<bar> \<le> 2 ^ 53" and k: "- 1074 \<le> k"
  shows "fl (of_int m * pow2 k) = of_int m * pow2 k"
proof (cases "m = 0")
  case True
  then show ?thesis by (simp add: fl_zero)
next
  case False
  define x where "x = of_int m * pow2 k"
  have x0: "x \<noteq> 0" using False pow2_pos [of k] by (simp add: x_def)
  define E where "E = max (float_exponent \<bar>x\<bar>) (- 1022)"
  have u: "float_unit x = pow2 (E - 52)" by (simp add: float_unit_def E_def)
  have up: "0 < pow2 (E - 52)" by (rule pow2_pos)
  have "\<exists>n. x / pow2 (E - 52) = of_int n"
  proof (cases "E - 52 \<le> k")
    case True
    have "pow2 k = pow2 (k - (E - 52)) * pow2 (E - 52)" by (simp add: pow2_add [symmetric])
    moreover have "pow2 (k - (E - 52)) = of_int (2 ^ nat (k - (E - 52)))"
      using True by (simp add: pow2_def)
    ultimately have "x / pow2 (E - 52) = of_int (m * 2 ^ nat (k - (E - 52)))"
      using up by (simp add: x_def)
    then show ?thesis ..
  next
    case False
    with k have Ee: "E = float_exponent \<bar>x\<bar>" unfolding E_def by linarith
    have lo: "pow2 E \<le> \<bar>x\<bar>" using exponent_bounds_abs(1) [OF x0] Ee by simp
    have "(of_int \<bar>m\<bar> :: real) \<le> of_int (2 ^ 53)" using m by (simp only: of_int_le_iff)
    then have m': "(of_int \<bar>m\<bar> :: real) \<le> 2 ^ 53" by simp
    have "\<bar>x\<bar> = of_int \<bar>m\<bar> * pow2 k"
      using pow2_pos [of k] by (simp add: x_def abs_mult)
    also have "\<dots> \<le> 2 ^ 53 * pow2 k"
      using m' pow2_pos [of k] by (intro mult_right_mono) simp_all
    also have "\<dots> = pow2 (53 + k)" by (simp only: pow2_add pow2_53)
    also have "\<dots> \<le> pow2 E" using False by (intro pow2_mono) simp
    finally have "\<bar>x\<bar> = pow2 E" using lo by simp
    moreover have "pow2 E = 2 ^ 52 * pow2 (E - 52)"
    proof -
      have "E = 52 + (E - 52)" by simp
      then have "pow2 E = pow2 (52 + (E - 52))" by simp
      then show ?thesis by (simp only: pow2_add pow2_52)
    qed
    ultimately have "\<bar>x / pow2 (E - 52)\<bar> = 2 ^ 52"
      using up by (simp add: abs_divide)
    then have "x / pow2 (E - 52) = of_int (2 ^ 52) \<or> x / pow2 (E - 52) = of_int (- (2 ^ 52))"
      by (simp add: abs_if split: if_splits)
    then show ?thesis by blast
  qed
  then obtain n where n: "x / pow2 (E - 52) = of_int n" ..
  have "fl x = of_int n * pow2 (E - 52)"
    by (simp only: fl_unit [OF x0] u n py_round_of_int)
  also have "\<dots> = x" using n up by (simp add: field_simps)
  finally show ?thesis by (simp add: x_def)
qed

lemma fl_idem: "fl (fl x) = fl x"
proof (cases "x = 0")
  case True
  then show ?thesis by (simp add: fl_zero)
next
  case False
  have "fl x = of_int (py_round (x / float_unit x)) * pow2 (max (float_exponent \<bar>x\<bar>) (- 1022) - 52)"
    using False by (simp add: fl_unit float_unit_def)
  moreover have "- 1074 \<le> max (float_exponent \<bar>x\<bar>) (- 1022) - 52" by simp
  ultimately show ?thesis using fl_repr [OF mantissa_bound [OF False]] by simp
qed

lemma fl_of_int: "\<bar>n\<bar> \<le> 2 ^ 53 \<Longrightarrow> fl (of_int n) = of_int n"
  using fl_repr [of n 0] by (simp add: pow2_def)

lemma fl_one: "fl 1 = 1"
  using fl_of_int [of 1] by simp

lemma fl_nonpos: "x \<le> 0 \<Longrightarrow> fl x \<le> 0"
  using fl_nonneg [of "- x"] by (simp add: fl_minus)

lemma fl_mono_pos:
  assumes "0 < x" "x \<le> y"
  shows "fl x \<le> fl y"
proof -
  define Ex where "Ex = max (float_exponent \<bar>x\<bar>) (- 1022)"
  define Ey where "Ey = max (float_exponent \<bar>y\<bar>) (- 1022)"
  from assms have x0: "x \<noteq> 0" and y0: "y \<noteq> 0" by simp_all
  have ux: "float_unit x = pow2 (Ex - 52)" by (simp add: float_unit_def Ex_def)
  have uy: "float_unit y = pow2 (Ey - 52)" by (simp add: float_unit_def Ey_def)
  have "float_exponent \<bar>x\<bar> \<le> float_exponent \<bar>y\<bar>"
    using float_exponent_mono [of x y] assms by simp
  then have le: "Ex \<le> Ey" unfolding Ex_def Ey_def by linarith
  show ?thesis
  proof (cases "Ex = Ey")
    case True
    then have same: "float_unit x = float_unit y" by (simp add: ux uy)
    have "x / float_unit y \<le> y / float_unit y"
      using assms(2) float_unit_pos [of y] by (simp add: divide_right_mono)
    then have "py_round (x / float_unit y) \<le> py_round (y / float_unit y)"
      by (rule py_round_mono)
    then have "(of_int (py_round (x / float_unit y)) :: real) \<le> of_int (py_round (y / float_unit y))"
      by (simp only: of_int_le_iff)
    then have "of_int (py_round (x / float_unit y)) * float_unit y
        \<le> of_int (py_round (y / float_unit y)) * float_unit y"
      using float_unit_pos [of y] by (intro mult_right_mono) simp_all
    then show ?thesis by (simp only: fl_unit [OF x0] fl_unit [OF y0] same)
  next
    case False
    with le have lt: "Ex + 1 \<le> Ey" by simp
    then have Ey: "Ey = float_exponent \<bar>y\<bar>" unfolding Ex_def Ey_def by linarith
    have "py_round (x / float_unit x) \<le> 2 ^ 53"
      using mantissa_bound [OF x0] by linarith
    then have "(of_int (py_round (x / float_unit x)) :: real) \<le> of_int (2 ^ 53)"
      by (simp only: of_int_le_iff)
    then have "of_int (py_round (x / float_unit x)) * float_unit x \<le> of_int (2 ^ 53) * float_unit x"
      using float_unit_pos [of x] by (intro mult_right_mono) simp_all
    then have "fl x \<le> 2 ^ 53 * pow2 (Ex - 52)"
      by (simp add: fl_unit [OF x0] ux)
    also have "\<dots> = pow2 (Ex + 1)"
    proof -
      have "Ex + 1 = 53 + (Ex - 52)" by simp
      then show ?thesis by (simp only: pow2_add pow2_53)
    qed
    also have "\<dots> \<le> pow2 Ey" using lt by (rule pow2_mono)
    finally have a: "fl x \<le> pow2 Ey" .
    have p: "pow2 Ey = 2 ^ 52 * pow2 (Ey - 52)"
    proof -
      have "Ey = 52 + (Ey - 52)" by simp
      then have "pow2 Ey = pow2 (52 + (Ey - 52))" by simp
      then show ?thesis by (simp only: pow2_add pow2_52)
    qed
    have "pow2 Ey \<le> y" using exponent_bounds_abs(1) [OF y0] Ey assms by simp
    then have "of_int (2 ^ 52) \<le> y / float_unit y"
      using pow2_pos [of "Ey - 52"] by (simp add: uy p pos_le_divide_eq)
    then have "py_round (of_int (2 ^ 52)) \<le> py_round (y / float_unit y)"
      by (rule py_round_mono)
    then have "2 ^ 52 \<le> py_round (y / float_unit y)"
      by (simp only: py_round_of_int)
    then have "(of_int (2 ^ 52) :: real) \<le> of_int (py_round (y / float_unit y))"
      by (simp only: of_int_le_iff)
    then have "of_int (2 ^ 52) * float_unit y \<le> of_int (py_round (y / float_unit y)) * float_unit y"
      using float_unit_pos [of y] by (intro mult_right_mono) simp_all
    then have "pow2 Ey \<le> fl y"
      by (simp add: fl_unit [OF y0] uy p)
    with a show ?thesis by linarith
  qed
qed

lemma fl_mono:
  assumes "x \<le> y"
  shows "fl x \<le> fl y"
proof -
  consider "0 < x" | "x \<le> 0" "0 \<le> y" | "y < 0" by linarith
  then show ?thesis
  proof cases
    case 1
    then show ?thesis using assms by (rule fl_mono_pos)
  next
    case 2
    then show ?thesis using fl_nonpos [of x] fl_nonneg [of y] by linarith
  next
    case 3
    with assms have "0 < - y" "- y \<le> - x" by simp_all
    then have "fl (- y) \<le> fl (- x)" by (rule fl_mono_pos)
    then show ?thesis by (simp add: fl_minus)
  qed
qed

lemma fl_abs: "\<bar>fl x\<bar> = fl \<bar>x\<bar>"
proof (cases "0 \<le> x")
  case True
  then show ?thesis using fl_nonneg [of x] by simp
next
  case False
  then show ?thesis using fl_nonpos [of x] by (simp add: fl_minus)
qed

lemma fl_abs_le_one: "\<bar>x\<bar> \<le> 1 \<Longrightarrow> \<bar>fl x\<bar> \<le> 1"
  using fl_mono [of "\<bar>x\<bar>" 1] by (simp add: fl_abs fl_one)

lemma py_round_near_even:
  assumes "even n" "\<bar>y - of_int n\<bar> \<le> 1 / 2"
  shows "py_round y = n"
proof (cases "of_int n \<le> y")
  case True
  with assms(2) have "\<lfloor>y\<rfloor> = n" by linarith
  with assms True show ?thesis by (auto simp: py_round_def Let_def)
next
  case False
  with assms(2) have f: "\<lfloor>y\<rfloor> = n - 1" by linarith
  from assms(1) have "odd (n - 1)" by simp
  with assms(2) False show ?thesis unfolding py_round_def Let_def f by auto
qed

lemma fl_error_within:
  assumes "\<bar>t\<bar> \<le> m"
  shows "\<bar>fl t - t\<bar> \<le> m / 9007199254740992 + pow2 (- 1075)"
    and "\<bar>fl t\<bar> \<le> m + m / 9007199254740992 + pow2 (- 1075)"
proof -
  have "\<bar>fl t - t\<bar> \<le> \<bar>t\<bar> / 9007199254740992 + pow2 (- 1075)"
    using fl_error [of t] by simp
  with assms show "\<bar>fl t - t\<bar> \<le> m / 9007199254740992 + pow2 (- 1075)" by linarith
  then show "\<bar>fl t\<bar> \<le> m + m / 9007199254740992 + pow2 (- 1075)"
    using assms by linarith
qed

text \<open>The three luminance weights as floats.\<close>

lemma fl_2126: "fl (2126 / 10000) = 1914930561557935 / 9007199254740992"
  by (subst fl_eval [of "-3"]) (simp_all add: pow2_def py_round_def Let_def)

lemma fl_7152: "fl (7152 / 10000) = 6441948906990757 / 9007199254740992"
  by (subst fl_eval [of "-1"]) (simp_all add: pow2_def py_round_def Let_def)

lemma fl_722: "fl (722 / 10000) = 5202558289538397 / 72057594037927936"
  by (subst fl_eval [of "-4"]) (simp_all add: pow2_def py_round_def Let_def)

lemma uint_real_nonneg: "0 \<le> (of_int (uint w) :: real)"
  unfolding of_int_0_le_iff by (rule uint_ge_0)

lemma luminance_nonneg: "0 \<le> luminance r g b"
proof -
  have c: "0 \<le> fl (fl q * of_int (uint w))" if "0 \<le> q" for q and w :: byte
    using that by (intro fl_nonneg mult_nonneg_nonneg uint_real_nonneg)
  show ?thesis
    unfolding luminance_def
    by (intro trunc_nonneg fl_nonneg add_nonneg_nonneg c) simp_all
qed

section \<open>Manual thresholding\<close>

lemma threshold_pixels_zero:
  "t \<le> 0 \<Longrightarrow> 3 dvd length xs \<Longrightarrow> threshold_pixels t xs = Inr (replicate (length xs) 255)"
proof (induction t xs rule: threshold_pixels.induct)
  case (1 t)
  show ?case by simp
next
  case (2 t r g b rest)
  from "2.prems" have "3 dvd length rest"
    by simp presburger
  with "2.IH" "2.prems" luminance_nonneg [of r g b] show ?case
    by (simp add: Let_def)
next
  case "3_1"
  then have False by simp
  then show ?case ..
next
  case "3_2"
  then have False by simp presburger
  then show ?case ..
qed

text \<open>
  C7. With threshold 0 every pixel of the result is (255, 255, 255), for every buffer
  whose data holds whole pixels (dimensions and \<open>max_value\<close> are kept); with a threshold
  outside \<open>0..255\<close> the call raises \<^verbatim>\<open>ValueError\<close> and returns no buffer.
\<close>

theorem threshold_manual_zero_white_and_range_checked:
  "(3 dvd length (data img) \<longrightarrow>
      threshold_manual img 0 = Inr (img\<lparr>data := replicate (length (data img)) 255\<rparr>))
   \<and> (t < 0 \<or> 255 < t \<longrightarrow> threshold_manual img t = Inl ValueError)"
  by (auto simp: threshold_manual_def threshold_pixels_zero)

theorem threshold_manual_zero_white_and_range_checked_witness:
  "threshold_manual \<lparr>width = 2, height = 1, max_value = 255, data = [10, 10, 10, 200, 200, 200]\<rparr> 0
     = Inr \<lparr>width = 2, height = 1, max_value = 255, data = [255, 255, 255, 255, 255, 255]\<rparr>
   \<and> threshold_manual \<lparr>width = 2, height = 1, max_value = 255, data = [10, 10, 10, 200, 200, 200]\<rparr> 256
     = Inl ValueError"
proof -
  have "3 dvd length [10, 10, 10, 200, 200, 200 :: byte]" by simp presburger
  with threshold_manual_zero_white_and_range_checked
    [of "\<lparr>width = 2, height = 1, max_value = 255, data = [10, 10, 10, 200, 200, 200]\<rparr>" 256]
  show ?thesis by simp
qed

section \<open>Percent-black selection\<close>

text \<open>
  The scan returns the first index at which the running count reaches the target.
\<close>

lemma percent_black_scan_first:
  assumes "j \<le> k" "k < n" "\<forall>i. j \<le> i \<and> i < k \<longrightarrow> c + sum_list (map ((!) hist) [j..<Suc i]) < target"
    and "c + sum_list (map ((!) hist) [j..<Suc k]) \<ge> target"
  shows "percent_black_scan hist target c [j..<n] = int k"
  using assms
proof (induction "k - j" arbitrary: j c)
  case 0
  then have "j = k" by simp
  with 0 show ?case by (simp add: upt_conv_Cons Let_def)
next
  case (Suc d)
  then have jk: "j < k" by simp
  with Suc.prems have jn: "j < n" by simp
  from Suc.prems(3) [rule_format, of j] jk have lt: "c + hist ! j < target" by simp
  have "percent_black_scan hist target (c + hist ! j) [Suc j..<n] = int k"
  proof (rule Suc.hyps(1))
    show "d = k - Suc j" using Suc.hyps(2) by simp
    show "Suc j \<le> k" using jk by simp
    show "k < n" by fact
    show "\<forall>i. Suc j \<le> i \<and> i < k \<longrightarrow> c + hist ! j + sum_list (map ((!) hist) [Suc j..<Suc i]) < target"
    proof (intro allI impI)
      fix i assume i: "Suc j \<le> i \<and> i < k"
      then have "[j..<Suc i] = j # [Suc j..<Suc i]" by (intro upt_conv_Cons) simp
      with Suc.prems(3) [rule_format, of i] i
      show "c + hist ! j + sum_list (map ((!) hist) [Suc j..<Suc i]) < target"
        by (simp del: upt_Suc)
    qed
    have "[j..<Suc k] = j # [Suc j..<Suc k]" using jk by (intro upt_conv_Cons) simp
    with Suc.prems(4)
    show "target \<le> c + hist ! j + sum_list (map ((!) hist) [Suc j..<Suc k])"
      by (simp del: upt_Suc)
  qed
  with lt jn show ?case by (simp add: upt_conv_Cons [of j] Let_def)
qed

text \<open>The two luminances of the example, rounding by rounding.\<close>

lemma luminance_10_10_10: "luminance 10 10 10 = 9"
proof -
  have p1: "fl (1914930561557935 / 9007199254740992 * of_int (uint (10 :: byte))) = 2393663201947419 / 1125899906842624"
    by (subst fl_eval [of "1"]) (simp_all add: pow2_def py_round_def Let_def)
  have p2: "fl (6441948906990757 / 9007199254740992 * of_int (uint (10 :: byte))) = 4026218066869223 / 562949953421312"
    by (subst fl_eval [of "2"]) (simp_all add: pow2_def py_round_def Let_def)
  have p3: "fl (5202558289538397 / 72057594037927936 * of_int (uint (10 :: byte))) = 1625799465480749 / 2251799813685248"
    by (subst fl_eval [of "-1"]) (simp_all add: pow2_def py_round_def Let_def)
  have s1: "fl (2393663201947419 / 1125899906842624 + 4026218066869223 / 562949953421312) = 1305762416960733 / 140737488355328"
    by (subst fl_eval [of "3"]) (simp_all add: pow2_def py_round_def Let_def)
  have s2: "fl (1305762416960733 / 140737488355328 + 1625799465480749 / 2251799813685248) = 5629499534213119 / 562949953421312"
    by (subst fl_eval [of "3"]) (simp_all add: pow2_def py_round_def Let_def)
  show ?thesis
    unfolding luminance_def fl_2126 fl_7152 fl_722 p1 p2 p3 s1 s2 by (simp add: trunc_def)
qed

lemma luminance_200_200_200: "luminance 200 200 200 = 200"
proof -
  have p1: "fl (1914930561557935 / 9007199254740992 * of_int (uint (200 :: byte))) = 5984158004868547 / 140737488355328"
    by (subst fl_eval [of "5"]) (simp_all add: pow2_def py_round_def Let_def)
  have p2: "fl (6441948906990757 / 9007199254740992 * of_int (uint (200 :: byte))) = 5032772583586529 / 35184372088832"
    by (subst fl_eval [of "7"]) (simp_all add: pow2_def py_round_def Let_def)
  have p3: "fl (5202558289538397 / 72057594037927936 * of_int (uint (200 :: byte))) = 8128997327403745 / 562949953421312"
    by (subst fl_eval [of "3"]) (simp_all add: pow2_def py_round_def Let_def)
  have s1: "fl (5984158004868547 / 140737488355328 + 5032772583586529 / 35184372088832) = 3264406042401833 / 17592186044416"
    by (subst fl_eval [of "7"]) (simp_all add: pow2_def py_round_def Let_def)
  have s2: "fl (3264406042401833 / 17592186044416 + 8128997327403745 / 562949953421312) = 200"
    by (subst fl_eval [of "7"]) (simp_all add: pow2_def py_round_def Let_def)
  show ?thesis
    unfolding luminance_def fl_2126 fl_7152 fl_722 p1 p2 p3 s1 s2 by (simp add: trunc_def)
qed

lemma example_histogram: "compute_histogram_grayscale
        \<lparr>width = 2, height = 1, max_value = 255, data = [10, 10, 10, 200, 200, 200]\<rparr>
     = Inr ((replicate 256 0)[9 := 1, 200 := 1])"
  by (simp add: compute_histogram_grayscale_def and_then_def list_incr_def py_index_def
        luminance_10_10_10 luminance_200_200_200)

lemma percent_black_scan_zeros:
  assumes "k < n" "\<forall>i<k. hist ! i = 0" "0 < target" "target \<le> hist ! k"
  shows "percent_black_scan hist target 0 [0..<n] = int k"
proof (rule percent_black_scan_first)
  have z: "sum_list (map ((!) hist) [0..<i]) = 0" if "i \<le> k" for i
    using that assms(2) by (induction i) auto
  show "\<forall>i. 0 \<le> i \<and> i < k \<longrightarrow> 0 + sum_list (map ((!) hist) [0..<Suc i]) < target"
    using z assms(2,3) by simp
  show "target \<le> 0 + sum_list (map ((!) hist) [0..<Suc k])"
    using z [of k] assms(4) by simp
qed (use assms in simp_all)

lemma example_threshold: "percent_black_threshold
        \<lparr>width = 2, height = 1, max_value = 255, data = [10, 10, 10, 200, 200, 200]\<rparr> 50 = Inr 9"
proof -
  have f100: "fl 100 = 100"
    by (subst fl_eval [of 6]) (simp_all add: pow2_def py_round_def Let_def)
  have f1: "fl 1 = 1"
    by (subst fl_eval [of 0]) (simp_all add: pow2_def py_round_def Let_def)
  have "percent_black_scan ((replicate 256 0)[9 := 1, 200 := 1]) 1 0 [0..<256] = int 9"
    by (rule percent_black_scan_zeros) (simp_all add: nth_list_update)
  then show ?thesis
    by (simp add: percent_black_threshold_def example_histogram and_then_def f100 f1 trunc_def)
qed

text \<open>
  C3. On the 2-by-1 image with pixels (10,10,10) and (200,200,200) the code computes the
  luminances 9 and 200 (the float sum for the first pixel is just under 10), the target
  count is 1, and the scan stops at intensity 9, where the count first reaches 1: the
  threshold is the darker pixel's own luminance, not a value strictly between the two.
  \<^verbatim>\<open>threshold_manual\<close> whitens every pixel with luminance \<open>\<ge>\<close> threshold, so the
  result is all white, not [0,0,0, 255,255,255].
\<close>

theorem percent_black_example_all_white:
  "luminance 10 10 10 = 9 \<and> luminance 200 200 200 = 200
   \<and> percent_black_threshold
        \<lparr>width = 2, height = 1, max_value = 255, data = [10, 10, 10, 200, 200, 200]\<rparr> 50 = Inr 9
   \<and> threshold_percent_black
        \<lparr>width = 2, height = 1, max_value = 255, data = [10, 10, 10, 200, 200, 200]\<rparr> 50
       = Inr \<lparr>width = 2, height = 1, max_value = 255, data = [255, 255, 255, 255, 255, 255]\<rparr>"
  by (simp add: threshold_percent_black_def example_threshold and_then_def threshold_manual_def
        luminance_10_10_10 luminance_200_200_200)

section \<open>Rotation about a pivot\<close>

text \<open>
  \<open>around_point p m\<close> is \<open>translate p * (m * translate (-p))\<close>. For a rotation \<open>m\<close> with
  cosine \<open>c\<close> and sine \<open>s\<close> every entry of the two products is exact except the last
  column: with \<open>A = fl (fl (c * px) + fl (- s * py))\<close>, the first coordinate of the rotated
  pivot, the matrix holds \<open>fl (px - A)\<close> there, and the image of the pivot is
  \<open>fl (A + fl (px - A))\<close>: the pivot up to two roundings.
\<close>

lemma fl_tiny: "fl (1 / 10 ^ 12) = 4951760157141521 / 4951760157141521099596496896"
  by (subst fl_eval [of "-40"]) (simp_all add: pow2_def py_round_def Let_def)

lemma py_cos_float: "fl (py_cos a) = py_cos a" and py_sin_float: "fl (py_sin a) = py_sin a"
  by (simp_all add: py_cos_def py_sin_def fl_idem)

lemma py_cos_le_one: "\<bar>py_cos a\<bar> \<le> 1" and py_sin_le_one: "\<bar>py_sin a\<bar> \<le> 1"
  by (simp_all add: py_cos_def py_sin_def fl_abs_le_one)

text \<open>The image of the pivot, rounding by rounding.\<close>

lemma pivot_image:
  assumes c: "fl c = c" and s: "fl s = s" and px: "fl px = px" and py: "fl py = py"
  defines "A \<equiv> fl (fl (c * px) + fl (- s * py))"
    and "B \<equiv> fl (fl (s * px) + fl (c * py))"
  shows "mat3_apply_to_point (around_point (px, py) ((c, - s, 0), (s, c, 0), (0, 0, 1))) (px, py)
     = (fl (A + fl (px - A)), fl (B + fl (py - B)))"
proof -
  have n02: "dot3 c (- s) 0 (- px) (- py) 1 = - A"
  proof -
    have "fl (c * - px) + fl (- s * - py) = - (fl (c * px) + fl (- s * py))"
      using fl_minus [of "c * px"] fl_minus [of "s * py"] by simp
    then show ?thesis
      unfolding dot3_def A_def by (simp only: fl_minus fl_idem mult_zero_left fl_zero add_0_right)
  qed
  have n12: "dot3 s c 0 (- px) (- py) 1 = - B"
  proof -
    have "fl (s * - px) + fl (c * - py) = - (fl (s * px) + fl (c * py))"
      using fl_minus [of "s * px"] fl_minus [of "c * py"] by simp
    then show ?thesis
      unfolding dot3_def B_def by (simp only: fl_minus fl_idem mult_zero_left fl_zero add_0_right)
  qed
  have r02: "dot3 1 0 px (- A) (- B) 1 = fl (px - A)"
    unfolding dot3_def using px by (simp add: fl_zero fl_minus fl_idem A_def)
  have r12: "dot3 0 1 py (- A) (- B) 1 = fl (py - B)"
    unfolding dot3_def using py by (simp add: fl_zero fl_minus fl_idem B_def)
  have lin: "dot3 1 0 px c s 0 = c" "dot3 1 0 px (- s) c 0 = - s"
    "dot3 0 1 py c s 0 = s" "dot3 0 1 py (- s) c 0 = c"
    "dot3 c (- s) 0 1 0 0 = c" "dot3 c (- s) 0 0 1 0 = - s"
    "dot3 s c 0 1 0 0 = s" "dot3 s c 0 0 1 0 = c"
    unfolding dot3_def using c s by (simp_all add: fl_zero fl_minus)
  have row3: "dot3 0 0 1 a b 0 = 0" "dot3 0 0 1 a b 1 = 1" "dot3 1 0 px 0 0 0 = 0" "dot3 0 1 py 0 0 0 = 0"
    "dot3 1 0 px 0 0 1 = px" "dot3 0 1 py 0 0 1 = py" for a b
    unfolding dot3_def using px py by (simp_all add: fl_zero fl_one)
  have m: "around_point (px, py) ((c, - s, 0), (s, c, 0), (0, 0, 1))
      = ((c, - s, fl (px - A)), (s, c, fl (py - B)), (0, 0, 1))"
    by (simp add: mat3_translate_def n02 n12 r02 r12 lin row3)
  have hx: "dot3 c (- s) (fl (px - A)) px py 1 = fl (A + fl (px - A))"
    unfolding dot3_def A_def by (simp add: fl_idem)
  have hy: "dot3 s c (fl (py - B)) px py 1 = fl (B + fl (py - B))"
    unfolding dot3_def B_def by (simp add: fl_idem)
  have hw: "dot3 0 0 1 px py 1 = 1"
    unfolding dot3_def by (simp add: fl_zero fl_one)
  have guard: "\<not> \<bar>1 :: real\<bar> < fl (1 / 10 ^ 12)"
    unfolding fl_tiny by simp
  show ?thesis
    unfolding m mat3_apply_to_point.simps hx hy hw Let_def
    by (simp only: guard if_False div_by_1 fl_idem)
qed

lemma rounding_budget:
  fixes vx vy eta :: real
  assumes "0 \<le> vx" "0 \<le> vy" "0 < eta"
    "p = vx + vx / 9007199254740992 + eta" "q = vy + vy / 9007199254740992 + eta"
    "al = p + q + p / 9007199254740992 + q / 9007199254740992 + eta"
    "d1 = vx / 9007199254740992 + vy / 9007199254740992 + al / 9007199254740992 + eta"
    "d2 = vx / 9007199254740992 + vy / 9007199254740992 + d1 / 9007199254740992 + eta"
  shows "d1 + d2 \<le> vx / 2251799813685248 + vy / 2251799813685248 + 4 * eta"
  using assms by linarith

lemma pivot_coordinate_error:
  assumes a: "\<bar>a\<bar> \<le> 1" and b: "\<bar>b\<bar> \<le> 1" and z: "\<bar>z\<bar> \<le> \<bar>x\<bar> + \<bar>y\<bar>"
  defines "A \<equiv> fl (fl (a * x) + fl (b * y))"
  shows "\<bar>fl (A + fl (z - A)) - z\<bar> \<le> (\<bar>x\<bar> + \<bar>y\<bar>) / 2 ^ 51 + 1 / 2 ^ 1073"
proof -
  define eta where "eta = pow2 (- 1075)"
  have eta: "0 < eta" by (simp add: eta_def pow2_pos)
  have eta4: "1 / 2 ^ 1073 = 4 * eta" by (simp add: eta_def pow2_def)
  define P where "P = fl (a * x)"
  define Q where "Q = fl (b * y)"
  define D where "D = fl (z - A)"
  define H where "H = fl (A + D)"
  define vx where "vx = \<bar>x\<bar>"
  define vy where "vy = \<bar>y\<bar>"
  define p where "p = vx + vx / 9007199254740992 + eta"
  define q where "q = vy + vy / 9007199254740992 + eta"
  define al where "al = p + q + p / 9007199254740992 + q / 9007199254740992 + eta"
  define d1 where "d1 = vx / 9007199254740992 + vy / 9007199254740992 + al / 9007199254740992 + eta"
  define d2 where "d2 = vx / 9007199254740992 + vy / 9007199254740992 + d1 / 9007199254740992 + eta"
  have v: "0 \<le> vx" "0 \<le> vy" by (simp_all add: vx_def vy_def)
  have zb: "\<bar>z\<bar> \<le> vx + vy" using z by (simp only: vx_def vy_def)
  have ax: "\<bar>a * x\<bar> \<le> vx"
    using a mult_left_le_one_le [of "\<bar>x\<bar>" "\<bar>a\<bar>"] by (simp add: abs_mult vx_def)
  have by': "\<bar>b * y\<bar> \<le> vy"
    using b mult_left_le_one_le [of "\<bar>y\<bar>" "\<bar>b\<bar>"] by (simp add: abs_mult vy_def)
  have bp: "\<bar>P\<bar> \<le> p"
    unfolding P_def p_def eta_def by (rule fl_error_within(2) [OF ax])
  have bq: "\<bar>Q\<bar> \<le> q"
    unfolding Q_def q_def eta_def by (rule fl_error_within(2) [OF by'])
  have pq: "\<bar>P + Q\<bar> \<le> p + q" using bp bq by linarith
  have "\<bar>fl (P + Q)\<bar> \<le> (p + q) + (p + q) / 9007199254740992 + eta"
    unfolding eta_def by (rule fl_error_within(2) [OF pq])
  then have ba: "\<bar>A\<bar> \<le> al"
    by (simp only: A_def al_def P_def Q_def add_divide_distrib)
  have za: "\<bar>z - A\<bar> \<le> vx + vy + al" using zb ba by linarith
  have "\<bar>fl (z - A) - (z - A)\<bar> \<le> (vx + vy + al) / 9007199254740992 + eta"
    unfolding eta_def by (rule fl_error_within(1) [OF za])
  then have b1: "\<bar>D - (z - A)\<bar> \<le> d1"
    by (simp only: D_def d1_def add_divide_distrib)
  have ad: "\<bar>A + D\<bar> \<le> vx + vy + d1" using zb b1 by linarith
  have "\<bar>fl (A + D) - (A + D)\<bar> \<le> (vx + vy + d1) / 9007199254740992 + eta"
    unfolding eta_def by (rule fl_error_within(1) [OF ad])
  then have b2: "\<bar>H - (A + D)\<bar> \<le> d2"
    by (simp only: H_def d2_def add_divide_distrib)
  have "\<bar>H - z\<bar> \<le> d1 + d2" using b1 b2 by linarith
  also have "\<dots> \<le> vx / 2251799813685248 + vy / 2251799813685248 + 4 * eta"
    using v eta p_def q_def al_def d1_def d2_def by (rule rounding_budget)
  also have "\<dots> = (vx + vy) / 2 ^ 51 + 4 * eta"
    by (simp add: add_divide_distrib)
  finally show ?thesis
    by (simp only: eta4 H_def D_def vx_def vy_def)
qed

text \<open>
  At 90 degrees: \<^verbatim>\<open>radians(90)\<close> is the float nearest to half of \<open>py_pi\<close>, and its sine,
  which the Taylor polynomial of degree 21 bounds from below, rounds to 1.
\<close>

lemma sin_taylor_22:
  "\<bar>sin x - (\<Sum>m<22. sin_coeff m * x ^ m)\<bar> \<le> inverse (fact 22) * \<bar>x\<bar> ^ 22" for x :: real
  by (rule Maclaurin_sin_bound)

lemma sum_22: "(\<Sum>m<22. sin_coeff m * x ^ m) =
   x - x^3 / 6 + x^5 / 120 - x^7 / 5040 + x^9 / 362880 - x^11 / 39916800 + x^13 / 6227020800
   - x^15 / 1307674368000 + x^17 / 355687428096000 - x^19 / 121645100408832000
   + x^21 / 51090942171709440000" for x :: real
  by (simp add: sin_coeff_def lessThan_nat_numeral lessThan_Suc fact_numeral)

lemma sin_near_one: "1 - 1 / 2 ^ 54 \<le> sin (884279719003555 / 562949953421312 :: real)"
proof -
  define x :: real where "x = 884279719003555 / 562949953421312"
  have "1 - 1 / 2 ^ 54 \<le> (\<Sum>m<22. sin_coeff m * x ^ m) - inverse (fact 22) * \<bar>x\<bar> ^ 22"
    unfolding sum_22 by (simp add: x_def fact_numeral power_divide)
  with sin_taylor_22 [of x] show ?thesis unfolding x_def by linarith
qed

lemma fl_near_10_16:
  assumes "\<bar>e\<bar> \<le> 1"
  shows "fl (10000000000000000 + e) = 10000000000000000"
proof -
  have eq: "(10000000000000000 + e) / 2 - of_int 5000000000000000 = e / 2"
    by (simp add: add_divide_distrib)
  have "\<bar>e / 2\<bar> \<le> 1 / 2" using assms by simp
  then have "\<bar>(10000000000000000 + e) / 2 - of_int 5000000000000000\<bar> \<le> 1 / 2"
    by (simp only: eq)
  then have "py_round ((10000000000000000 + e) / 2) = 5000000000000000"
    by (intro py_round_near_even) simp_all
  moreover have "fl (10000000000000000 + e)
      = of_int (py_round ((10000000000000000 + e) / pow2 (53 - 52))) * pow2 (53 - 52)"
  proof (rule fl_eval)
    show "pow2 53 \<le> \<bar>10000000000000000 + e\<bar>" unfolding pow2_53 using assms by simp
    show "\<bar>10000000000000000 + e\<bar> < pow2 (53 + 1)" using assms by (simp add: pow2_def)
  qed simp
  ultimately show ?thesis by (simp add: pow2_def)
qed

lemma radians_90: "radians 90 = 884279719003555 / 562949953421312"
proof -
  have a: "fl (884279719003555 / 281474976710656 / 180) = 5030569068109113 / 288230376151711744"
    by (subst fl_eval [of "-6"]) (simp_all add: pow2_def py_round_def Let_def)
  have b: "fl (90 * (5030569068109113 / 288230376151711744)) = 884279719003555 / 562949953421312"
    by (subst fl_eval [of "0"]) (simp_all add: pow2_def py_round_def Let_def)
  show ?thesis unfolding radians_def py_pi_def a b ..
qed

lemma py_sin_radians_90: "py_sin (radians 90) = 1"
proof -
  have "fl (1 - 1 / 2 ^ 54) = 1"
    by (subst fl_eval [of "-1"]) (simp_all add: pow2_def py_round_def Let_def)
  then have "1 \<le> fl (sin (884279719003555 / 562949953421312))"
    using fl_mono [OF sin_near_one] by simp
  moreover have "fl (sin (884279719003555 / 562949953421312)) \<le> 1"
    using fl_mono [of "sin (884279719003555 / 562949953421312)" 1] by (simp add: fl_one)
  ultimately show ?thesis by (simp add: py_sin_def radians_90)
qed

text \<open>
  With the pivot \<open>(10^16, 1)\<close> and a rotation by 90 degrees the second coordinate of the
  image of the pivot is 0, not 1: \<open>1 - 10^16\<close> rounds to \<open>- 10^16\<close>, the floats being 2
  apart there. So the pivot is not returned unchanged.
\<close>

theorem around_point_rotation_moves_pivot:
  "snd (mat3_apply_to_point (around_point (10000000000000000, 1) (mat3_rotate_degrees 90))
          (10000000000000000, 1)) = 0"
proof -
  define c where "c = py_cos (radians 90)"
  have c: "fl c = c" "\<bar>c\<bar> \<le> 1" by (simp_all add: c_def py_cos_float py_cos_le_one)
  have rot: "mat3_rotate_degrees 90 = ((c, - 1, 0), (1, c, 0), (0, 0, 1))"
    by (simp add: mat3_rotate_degrees_def Let_def c_def py_sin_radians_90)
  have f16: "fl 10000000000000000 = 10000000000000000" using fl_near_10_16 [of 0] by simp
  have b: "fl (fl (1 * 10000000000000000) + fl (c * 1)) = 10000000000000000"
    using fl_near_10_16 [OF c(2)] by (simp only: mult_1 mult_1_right f16 c(1))
  have d: "fl (1 - 10000000000000000) = - 10000000000000000"
    using fl_near_10_16 [of "- 1"] fl_minus [of "10000000000000000 + - 1"] by simp
  have "mat3_apply_to_point (around_point (10000000000000000, 1) ((c, - 1, 0), (1, c, 0), (0, 0, 1)))
          (10000000000000000, 1)
      = (fl (fl (fl (c * 10000000000000000) + fl (- 1 * 1))
             + fl (10000000000000000 - fl (fl (c * 10000000000000000) + fl (- 1 * 1)))),
         fl (fl (fl (1 * 10000000000000000) + fl (c * 1))
             + fl (1 - fl (fl (1 * 10000000000000000) + fl (c * 1)))))"
    by (rule pivot_image [OF c(1) fl_one f16 fl_one])
  then show ?thesis
    unfolding rot b d by (simp add: fl_zero)
qed

text \<open>
  C9. For every pivot \<open>p = (px, py)\<close> with float coordinates and every angle, the matrix
  \<open>around_point p (rotate theta)\<close> applied to \<open>p\<close> gives \<open>p\<close> back up to rounding: each
  coordinate of the result differs from the pivot's by at most
  \<open>(\<bar>px\<bar> + \<bar>py\<bar>) / 2^51 + 2^-1073\<close>. It is not always \<open>p\<close> itself, as the pivot
  \<open>(10^16, 1)\<close> shows. The coordinates are taken below \<open>2^1021\<close> in magnitude, where no
  product or sum on the way overflows.
\<close>

theorem around_point_rotation_pivot_rounded:
  assumes "fl px = px" "fl py = py" "\<bar>px\<bar> \<le> 2 ^ 1021" "\<bar>py\<bar> \<le> 2 ^ 1021"
  shows "case mat3_apply_to_point (around_point (px, py) (mat3_rotate_degrees theta)) (px, py) of
           (hx, hy) \<Rightarrow>
             \<bar>hx - px\<bar> \<le> (\<bar>px\<bar> + \<bar>py\<bar>) / 2 ^ 51 + 1 / 2 ^ 1073
           \<and> \<bar>hy - py\<bar> \<le> (\<bar>px\<bar> + \<bar>py\<bar>) / 2 ^ 51 + 1 / 2 ^ 1073"
proof -
  define c where "c = py_cos (radians theta)"
  define s where "s = py_sin (radians theta)"
  have c: "fl c = c" "\<bar>c\<bar> \<le> 1" by (simp_all add: c_def py_cos_float py_cos_le_one)
  have s: "fl s = s" "\<bar>s\<bar> \<le> 1" "\<bar>- s\<bar> \<le> 1" by (simp_all add: s_def py_sin_float py_sin_le_one)
  have rot: "mat3_rotate_degrees theta = ((c, - s, 0), (s, c, 0), (0, 0, 1))"
    by (simp add: mat3_rotate_degrees_def Let_def c_def s_def)
  have x: "\<bar>fl (fl (fl (c * px) + fl (- s * py)) + fl (px - fl (fl (c * px) + fl (- s * py)))) - px\<bar>
      \<le> (\<bar>px\<bar> + \<bar>py\<bar>) / 2 ^ 51 + 1 / 2 ^ 1073"
    by (rule pivot_coordinate_error [OF c(2) s(3)]) simp
  have y: "\<bar>fl (fl (fl (s * px) + fl (c * py)) + fl (py - fl (fl (s * px) + fl (c * py)))) - py\<bar>
      \<le> (\<bar>px\<bar> + \<bar>py\<bar>) / 2 ^ 51 + 1 / 2 ^ 1073"
    by (rule pivot_coordinate_error [OF s(2) c(2)]) simp
  show ?thesis
    unfolding rot pivot_image [OF c(1) s(1) assms(1,2)] prod.case using x y by (rule conjI)
qed

theorem around_point_rotation_pivot_rounded_witness:
  "case mat3_apply_to_point (around_point (3, 4) (mat3_rotate_degrees 30)) (3, 4) of
     (hx, hy) \<Rightarrow>
       \<bar>hx - 3\<bar> \<le> (\<bar>3\<bar> + \<bar>4\<bar>) / 2 ^ 51 + 1 / 2 ^ 1073
     \<and> \<bar>hy - 4\<bar> \<le> (\<bar>3\<bar> + \<bar>4\<bar>) / 2 ^ 51 + 1 / 2 ^ 1073"
proof -
  have "fl 3 = 3" "fl 4 = 4" using fl_of_int [of 3] fl_of_int [of 4] by simp_all
  moreover have "\<bar>3 :: real\<bar> \<le> 2 ^ 1021" "\<bar>4 :: real\<bar> \<le> 2 ^ 1021" by simp_all
  ultimately show ?thesis by (rule around_point_rotation_pivot_rounded)
qed

section \<open>Sampling a curve\<close>

text \<open>
  The loop of \<^verbatim>\<open>binomial_coefficient\<close> computes the binomial coefficient; up to
  \<open>n = 1023\<close> every coefficient is at most \<open>2^1023\<close> and converts to a float, so that every
  point of a curve with at most 1024 control points is computed without an exception.
\<close>

lemma binomial_loop:
  "k \<le> n \<Longrightarrow> fold (\<lambda>i result. result * (int n - int i) div (int i + 1)) [0..<k] 1 = int (n choose k)"
proof (induction k)
  case 0
  show ?case by simp
next
  case (Suc k)
  then have ih: "fold (\<lambda>i result. result * (int n - int i) div (int i + 1)) [0..<k] 1 = int (n choose k)"
    by simp
  have "Suc k * (n choose Suc k) = (n - k) * (n choose k)"
    by (simp only: binomial_absorption binomial_absorb_comp)
  then have "int (Suc k) * int (n choose Suc k) = int (n - k) * int (n choose k)"
    by (metis of_nat_mult)
  then have "int (n choose k) * (int n - int k) = int (n choose Suc k) * (int k + 1)"
    using Suc.prems by (simp add: of_nat_diff algebra_simps)
  then have "int (n choose k) * (int n - int k) div (int k + 1) = int (n choose Suc k)"
    by simp
  with ih show ?case by simp
qed

lemma binomial_coefficient_choose:
  assumes "i \<le> n"
  shows "binomial_coefficient (int n) (int i) = int (n choose i)"
proof (cases "i = 0 \<or> i = n")
  case True
  then show ?thesis by (auto simp: binomial_coefficient_def)
next
  case False
  with assms have i: "0 < i" "i < n" by simp_all
  have m: "nat (min (int i) (int n - int i)) = min i (n - i)" using i by simp
  have "min i (n - i) \<le> n" by simp
  from binomial_loop [OF this]
  have "binomial_coefficient (int n) (int i) = int (n choose min i (n - i))"
    using i by (simp add: binomial_coefficient_def Let_def m)
  also have "n choose min i (n - i) = n choose i"
    using binomial_symmetric [OF assms] by (simp add: min_def)
  finally show ?thesis .
qed

lemma binomial_coefficient_in_range:
  assumes "i \<le> n" "n \<le> 1023"
  shows "\<bar>binomial_coefficient (int n) (int i)\<bar> < 2 ^ 1024 - 2 ^ 970"
proof -
  have "n choose i \<le> 2 ^ n" by (rule binomial_le_pow2)
  also have "(2::nat) ^ n \<le> 2 ^ 1023" using assms(2) by (intro power_increasing) simp_all
  finally have "int (n choose i) \<le> int (2 ^ 1023)" by (simp only: of_nat_le_iff)
  then have "int (n choose i) \<le> 2 ^ 1023" by simp
  moreover have "(2::int) ^ 1023 < 2 ^ 1024 - 2 ^ 970" by simp
  ultimately show ?thesis by (simp add: binomial_coefficient_choose [OF assms(1)])
qed

lemma bernstein_polynomial_total:
  assumes "i \<le> n" "n \<le> 1023"
  shows "\<exists>b. bernstein_polynomial n i t = Inr b"
  using binomial_coefficient_in_range [OF assms]
  by (simp add: bernstein_polynomial_def int_to_float_def and_then_def)

lemma bezier_sum_total:
  "n \<le> 1023 \<Longrightarrow> i + length cps \<le> Suc n \<Longrightarrow> \<exists>r. bezier_sum n t i cps acc = Inr r"
proof (induction cps arbitrary: i acc)
  case Nil
  show ?case by (cases acc) simp
next
  case (Cons p rest)
  obtain px py where p: "p = (px, py)" by (cases p)
  obtain x y where acc: "acc = (x, y)" by (cases acc)
  from Cons.prems have "i \<le> n" by simp
  from bernstein_polynomial_total [OF this Cons.prems(1)]
  obtain b where b: "bernstein_polynomial n i t = Inr b" ..
  from Cons.prems have "Suc i + length rest \<le> Suc n" by simp
  from Cons.IH [OF Cons.prems(1) this] show ?case
    by (simp add: p acc b and_then_def)
qed

lemma rational_sum_total:
  "n \<le> 1023 \<Longrightarrow> i + length cws \<le> Suc n \<Longrightarrow> \<exists>r. rational_sum n t i cws acc = Inr r"
proof (induction cws arbitrary: i acc)
  case Nil
  show ?case by (metis prod_cases3 rational_sum.simps(1))
next
  case (Cons pw rest)
  obtain px py w where p: "pw = ((px, py), w)" by (cases pw) auto
  obtain nx ny d where acc: "acc = (nx, ny, d)" by (rule prod_cases3)
  from Cons.prems have "i \<le> n" by simp
  from bernstein_polynomial_total [OF this Cons.prems(1)]
  obtain b where b: "bernstein_polynomial n i t = Inr b" ..
  from Cons.prems have "Suc i + length rest \<le> Suc n" by simp
  from Cons.IH [OF Cons.prems(1) this] show ?case
    by (simp add: p acc b and_then_def Let_def)
qed

lemma bezier_curve_point_total:
  assumes "length cps \<le> 1024"
  shows "\<exists>r. bezier_curve_point cps t = Inr r"
proof (cases "cps = []")
  case True
  then show ?thesis by (simp add: bezier_curve_point_def)
next
  case False
  then have "0 < length cps" by simp
  with assms have "length cps - 1 \<le> 1023" "0 + length cps \<le> Suc (length cps - 1)" by simp_all
  from bezier_sum_total [OF this] False show ?thesis by (simp add: bezier_curve_point_def)
qed

lemma rational_bezier_curve_point_total:
  assumes "length cps \<le> 1024"
  shows "\<exists>r. rational_bezier_curve_point cps ws t = Inr r"
proof (cases "cps = [] \<or> length cps \<noteq> length ws")
  case True
  then show ?thesis by (auto simp: rational_bezier_curve_point_def)
next
  case False
  then have "0 < length cps" "length (zip cps ws) = length cps" by auto
  with assms have "length cps - 1 \<le> 1023" "0 + length (zip cps ws) \<le> Suc (length cps - 1)" by simp_all
  from rational_sum_total [OF this]
  obtain r where "rational_sum (length cps - 1) t 0 (zip cps ws) (0, 0, 0) = Inr r" ..
  with False show ?thesis
    by (cases r) (auto simp: rational_bezier_curve_point_def and_then_def)
qed

lemma generate_samples_total:
  assumes "num_samples \<noteq> 0" "length cps \<le> 1024"
  shows "\<exists>pts. generate_samples cps w num_samples is = Inr pts \<and> length pts = length is"
proof (induction "is")
  case Nil
  show ?case by simp
next
  case (Cons i rest)
  then obtain pts where pts: "generate_samples cps w num_samples rest = Inr pts" "length pts = length rest"
    by auto
  let ?t = "fl (of_int i / of_int num_samples)"
  obtain r1 where r1: "bezier_curve_point cps ?t = Inr r1"
    using bezier_curve_point_total [OF assms(2)] by blast
  show ?case
  proof (cases w)
    case None
    then show ?thesis using assms(1) pts r1 by (simp add: and_then_def Let_def)
  next
    case (Some ws)
    obtain r2 where r2: "rational_bezier_curve_point cps ws ?t = Inr r2"
      using rational_bezier_curve_point_total [OF assms(2)] by blast
    from Some show ?thesis using assms(1) pts r1 r2 by (simp add: and_then_def Let_def)
  qed
qed

text \<open>
  The central coefficient of \<open>n = 1030\<close> is beyond the float range:
  \<open>16^m \<le> 4 * m * (2m choose m)^2\<close> gives \<open>(1030 choose 515)^2 \<ge> 2^2060 / 2060 > 2^2048\<close>.
  With 1031 control points the conversion of that coefficient raises
  \<^verbatim>\<open>OverflowError\<close> at the first sample.
\<close>

lemma central_binomial_step: "Suc m * (2 * Suc m choose Suc m) = 2 * (2 * m + 1) * (2 * m choose m)"
proof -
  define X where "X = (Suc (Suc (2 * m)) choose Suc m)"
  define Y where "Y = (Suc (2 * m) choose Suc m)"
  define C where "C = (2 * m choose m)"
  have a: "Suc m * X = Suc (Suc (2 * m)) * (Suc (2 * m) choose m)"
    unfolding X_def by (rule Suc_times_binomial)
  have "Suc (2 * m) choose m = Suc (2 * m) choose (Suc (2 * m) - m)"
    by (rule binomial_symmetric) simp
  also have "Suc (2 * m) - m = Suc m" by simp
  finally have b: "Suc (2 * m) choose m = Y" by (simp only: Y_def)
  have c: "Suc m * Y = Suc (2 * m) * C"
    unfolding Y_def C_def by (rule Suc_times_binomial)
  have "Suc m * (Suc m * X) = Suc m * (Suc (Suc (2 * m)) * Y)" by (simp only: a b)
  also have "\<dots> = Suc (Suc (2 * m)) * (Suc m * Y)" by (simp only: mult.left_commute)
  also have "\<dots> = Suc (Suc (2 * m)) * (Suc (2 * m) * C)" by (simp only: c)
  also have "Suc (Suc (2 * m)) = 2 * Suc m" by simp
  also have "2 * Suc m * (Suc (2 * m) * C) = Suc m * (2 * (2 * m + 1) * C)"
    by (simp only: Suc_eq_plus1 mult.assoc mult.left_commute)
  finally have "Suc m * X = 2 * (2 * m + 1) * C" by (simp only: mult_cancel1) simp
  moreover have "2 * Suc m = Suc (Suc (2 * m))" by simp
  ultimately show ?thesis by (simp only: X_def C_def)
qed

lemma central_binomial_square: "16 ^ Suc m \<le> 4 * Suc m * (2 * Suc m choose Suc m)\<^sup>2"
proof (induction m)
  case 0
  show ?case by (simp add: numeral_2_eq_2)
next
  case (Suc m)
  define c where "c = (2 * Suc m choose Suc m)"
  define d where "d = (2 * Suc (Suc m) choose Suc (Suc m))"
  define k where "k = Suc m"
  define q where "q = 2 * k + 1"
  have step: "Suc k * d = 2 * q * c"
    unfolding c_def d_def k_def q_def by (rule central_binomial_step)
  have ih: "16 ^ k \<le> 4 * k * c\<^sup>2" using Suc.IH by (simp only: c_def k_def)
  have "Suc k * 16 ^ Suc k = 16 * Suc k * 16 ^ k" by (simp add: algebra_simps)
  also have "\<dots> \<le> 16 * Suc k * (4 * k * c\<^sup>2)"
    using ih by (rule mult_left_mono) simp
  also have "\<dots> \<le> 4 * (2 * q * c)\<^sup>2"
  proof -
    have "4 * (k * Suc k) \<le> q\<^sup>2" by (simp add: q_def power2_eq_square algebra_simps)
    then have "4 * (k * Suc k) * (16 * c\<^sup>2) \<le> q\<^sup>2 * (16 * c\<^sup>2)"
      by (rule mult_right_mono) simp
    moreover have "16 * Suc k * (4 * k * c\<^sup>2) = 4 * (k * Suc k) * (16 * c\<^sup>2)"
      by (simp only: mult.assoc mult.left_commute mult.commute)
    moreover have "4 * (2 * q * c)\<^sup>2 = q\<^sup>2 * (16 * c\<^sup>2)"
      by (simp add: power_mult_distrib)
    ultimately show ?thesis by (simp only:)
  qed
  also have "\<dots> = 4 * (Suc k * d)\<^sup>2" by (simp only: step)
  also have "\<dots> = Suc k * (4 * Suc k * d\<^sup>2)"
    by (simp only: power_mult_distrib power2_eq_square mult.assoc mult.left_commute mult.commute)
  finally have "16 ^ Suc k \<le> 4 * Suc k * d\<^sup>2" by (simp only: mult_le_cancel1)
  then show ?case by (simp only: d_def k_def)
qed

lemma binomial_1030_515: "2 ^ 1024 \<le> binomial_coefficient 1030 515"
proof -
  have "(16::nat) ^ Suc 514 \<le> 4 * Suc 514 * (2 * Suc 514 choose Suc 514)\<^sup>2"
    by (rule central_binomial_square)
  then have "(16::nat) ^ 515 \<le> 2060 * (1030 choose 515)\<^sup>2" by simp
  moreover have "(16::nat) ^ 515 = 4096 * (2 ^ 1024)\<^sup>2" by simp
  ultimately have "4096 * ((2::nat) ^ 1024)\<^sup>2 \<le> 2060 * (1030 choose 515)\<^sup>2"
    by (simp only:)
  also have "\<dots> \<le> 4096 * (1030 choose 515)\<^sup>2" by (rule mult_right_mono) simp_all
  finally have "4096 * ((2::nat) ^ 1024)\<^sup>2 \<le> 4096 * (1030 choose 515)\<^sup>2" .
  then have "((2::nat) ^ 1024)\<^sup>2 \<le> (1030 choose 515)\<^sup>2" by simp
  then have "(2::nat) ^ 1024 \<le> 1030 choose 515" by (rule power2_le_imp_le) simp
  then have "int (2 ^ 1024) \<le> int (1030 choose 515)" by (simp only: of_nat_le_iff)
  moreover have "binomial_coefficient (int 1030) (int 515) = int (1030 choose 515)"
    by (rule binomial_coefficient_choose) simp
  ultimately show ?thesis by simp
qed

lemma bernstein_polynomial_error: "bernstein_polynomial n i t = Inl e \<Longrightarrow> e = OverflowError"
  by (auto simp: bernstein_polynomial_def int_to_float_def and_then_def split: if_splits)

lemma bezier_sum_overflow:
  "j < length cps \<Longrightarrow> bernstein_polynomial n (i + j) t = Inl OverflowError
     \<Longrightarrow> bezier_sum n t i cps acc = Inl OverflowError"
proof (induction cps arbitrary: i j acc)
  case Nil
  then show ?case by simp
next
  case (Cons p rest)
  obtain px py where p: "p = (px, py)" by (cases p)
  obtain x y where acc: "acc = (x, y)" by (cases acc)
  show ?case
  proof (cases "bernstein_polynomial n i t")
    case (Inl e)
    with bernstein_polynomial_error [of n i t e] show ?thesis
      by (simp add: p acc and_then_def)
  next
    case (Inr b)
    with Cons.prems(2) have "j \<noteq> 0" by (cases j) auto
    then obtain j' where j: "j = Suc j'" by (cases j) auto
    with Cons.prems have "j' < length rest" "bernstein_polynomial n (Suc i + j') t = Inl OverflowError"
      by simp_all
    from Cons.IH [OF this] Inr show ?thesis
      by (simp add: p acc and_then_def)
  qed
qed

theorem generate_bezier_curve_overflow:
  "generate_bezier_curve (replicate 1031 (0, 0)) 1 None = Inl OverflowError"
proof -
  have "bernstein_polynomial 1030 (0 + 515) 0 = Inl OverflowError"
    using binomial_1030_515 by (simp add: bernstein_polynomial_def int_to_float_def and_then_def)
  moreover have "515 < length (replicate 1031 (0 :: real, 0 :: real))" by simp
  ultimately have "bezier_sum 1030 0 0 (replicate 1031 (0, 0)) (0, 0) = Inl OverflowError"
    by (intro bezier_sum_overflow)
  then have "bezier_curve_point (replicate 1031 (0, 0)) 0 = Inl OverflowError"
    by (simp add: bezier_curve_point_def)
  moreover have "[0..1] = [0, 1 :: int]" by (simp add: upto_rec1)
  ultimately show ?thesis
    by (simp add: generate_bezier_curve_def fl_zero and_then_def)
qed

text \<open>
  C10. With at least two control points and \<open>samples = 0\<close> the call raises
  \<^verbatim>\<open>ZeroDivisionError\<close> at the first sample and returns nothing; with fewer than two
  control points it returns them as they are, whatever \<open>samples\<close> is. It also returns
  (the empty list) for a negative \<open>samples\<close>, and for \<open>samples \<ge> 1\<close> it returns
  \<open>samples + 1\<close> points when there are at most 1024 control points; with 1031 control
  points it raises \<^verbatim>\<open>OverflowError\<close> instead, so \<open>samples \<ge> 1\<close> alone does not make
  the call return.
\<close>

theorem generate_bezier_curve_zero_samples:
  "(2 \<le> length cps \<longrightarrow> generate_bezier_curve cps 0 w = Inl ZeroDivisionError)
   \<and> (length cps < 2 \<longrightarrow> generate_bezier_curve cps n w = Inr cps)
   \<and> (2 \<le> length cps \<and> n < 0 \<longrightarrow> generate_bezier_curve cps n w = Inr [])
   \<and> (2 \<le> length cps \<and> length cps \<le> 1024 \<and> 1 \<le> n \<longrightarrow>
        (\<exists>pts. generate_bezier_curve cps n w = Inr pts \<and> int (length pts) = n + 1))"
proof (intro conjI impI)
  assume "2 \<le> length cps"
  moreover have "[0..0] = [0::int]" by (simp add: upto_rec1)
  ultimately show "generate_bezier_curve cps 0 w = Inl ZeroDivisionError"
    by (simp add: generate_bezier_curve_def)
next
  assume "length cps < 2"
  then show "generate_bezier_curve cps n w = Inr cps"
    by (simp add: generate_bezier_curve_def)
next
  assume "2 \<le> length cps \<and> n < 0"
  then show "generate_bezier_curve cps n w = Inr []"
    by (simp add: generate_bezier_curve_def)
next
  assume a: "2 \<le> length cps \<and> length cps \<le> 1024 \<and> 1 \<le> n"
  then have "n \<noteq> 0" "length cps \<le> 1024" by simp_all
  from generate_samples_total [OF this, of w "[0..n]"] a
  show "\<exists>pts. generate_bezier_curve cps n w = Inr pts \<and> int (length pts) = n + 1"
    by (auto simp: generate_bezier_curve_def)
qed

theorem generate_bezier_curve_zero_samples_witness:
  "generate_bezier_curve [(0, 0), (10, 0), (10, 10)] 0 None = Inl ZeroDivisionError
   \<and> generate_bezier_curve [(3, 4)] 0 None = Inr [(3, 4)]
   \<and> generate_bezier_curve [(0, 0), (10, 0), (10, 10)] (- 1) None = Inr []
   \<and> (\<exists>pts. generate_bezier_curve [(0, 0), (10, 0), (10, 10)] 4 None = Inr pts \<and> int (length pts) = 4 + 1)"
  using generate_bezier_curve_zero_samples [of "[(0, 0), (10, 0), (10, 10)]" None 4]
    generate_bezier_curve_zero_samples [of "[(0, 0), (10, 0), (10, 10)]" None "- 1"]
    generate_bezier_curve_zero_samples [of "[(3, 4)]" None 0]
  by simp

end
